theory Spec2Isabelle
  imports Complex_Main "HOL-Library.Multiset" "HOL-Library.AList"
begin

section \<open>Python values, strings and exceptions\<close>

text \<open>
  A Python \<open>str\<close> is modelled as a \<open>string\<close> whose characters are the code points
  0..255 (the Latin-1 range): \<open>length\<close> then counts code points as \<open>len\<close> does, and
  \<open>str.lower\<close> and \<open>str.isspace\<close> are the Unicode tables restricted to that range.
  Code points above 255 are outside the model.
\<close>

datatype exc_class = OSError | ParseError | ValueError | LookupError | RequestException

text \<open>An instance of a subclass of \<open>Exception\<close>; \<open>exc_str\<close> is what \<open>str(e)\<close> returns.\<close>

datatype py_exception = PyExc (exc_class: exc_class) (exc_str: string)

text \<open>The values the program builds: dictionaries keep their insertion order.\<close>

datatype pyval =
    PNone
  | PBool bool
  | PInt int
  | PStr string
  | PList "pyval list"
  | PDict "(string \<times> pyval) list"

text \<open>\<open>c.isspace()\<close> for a code point below 256: TAB..CR, FS..US, SPACE, NEL, NBSP.\<close>

definition py_isspace :: "char \<Rightarrow> bool" where
  "py_isspace c =
     (let n = (of_char c :: nat)
      in (9 \<le> n \<and> n \<le> 13) \<or> (28 \<le> n \<and> n \<le> 32) \<or> n = 133 \<or> n = 160)"

text \<open>\<open>c.lower()\<close> for a code point below 256: A..Z and the capitals U+00C0..U+00DE
  (without the multiplication sign U+00D7) move up by 32.\<close>

definition py_lower_char :: "char \<Rightarrow> char" where
  "py_lower_char c =
     (let n = (of_char c :: nat)
      in if (65 \<le> n \<and> n \<le> 90) \<or> (192 \<le> n \<and> n \<le> 222 \<and> n \<noteq> 215)
         then char_of (n + 32) else c)"

definition py_lower :: "string \<Rightarrow> string" where
  "py_lower s = map py_lower_char s"

text \<open>\<open>s.strip()\<close>: drop the leading and the trailing whitespace.\<close>

definition py_strip :: "string \<Rightarrow> string" where
  "py_strip s = rev (dropWhile py_isspace (rev (dropWhile py_isspace s)))"

text \<open>\<open>s.strip(c)\<close> for a single character \<open>c\<close>.\<close>

definition py_strip_char :: "char \<Rightarrow> string \<Rightarrow> string" where
  "py_strip_char c s = rev (dropWhile (\<lambda>x. x = c) (rev (dropWhile (\<lambda>x. x = c) s)))"

text \<open>\<open>s.split(c)[0]\<close>: the part of \<open>s\<close> before the first \<open>c\<close> (all of \<open>s\<close> without one).\<close>

definition py_split_first :: "char \<Rightarrow> string \<Rightarrow> string" where
  "py_split_first c s = takeWhile (\<lambda>x. x \<noteq> c) s"

text \<open>\<open>s.startswith(k)\<close>.\<close>

fun py_startswith :: "string \<Rightarrow> string \<Rightarrow> bool" where
  "py_startswith s [] = True"
| "py_startswith [] (k # ks) = False"
| "py_startswith (c # cs) (k # ks) = (c = k \<and> py_startswith cs ks)"

text \<open>\<open>k in s\<close> for two strings: \<open>k\<close> starts at some position of \<open>s\<close>.\<close>

fun py_in :: "string \<Rightarrow> string \<Rightarrow> bool" where
  "py_in k [] = (k = [])"
| "py_in k (c # cs) = (py_startswith (c # cs) k \<or> py_in k cs)"

text \<open>\<open>any(...)\<close> over the values of a generator.\<close>

fun py_any :: "bool list \<Rightarrow> bool" where
  "py_any [] = False"
| "py_any (b # bs) = (b \<or> py_any bs)"

section \<open>The page scanner and \<open>fetch_url\<close>\<close>

text \<open>The body of the \<open>try\<close> block of \<open>fetch_url\<close>, lines 59 to 62.\<close>

definition marker_keywords :: "string list" where
  "marker_keywords = [''judol'', ''gacor'', ''togel'', ''maxwin'']"

definition has_judol :: "string \<Rightarrow> bool" where
  "has_judol body =
     (let text_lower = py_lower body
      in py_any (map (\<lambda>keyword. py_in keyword text_lower) marker_keywords))"

definition exact_judol :: "string \<Rightarrow> bool" where
  "exact_judol body = (py_lower (py_strip body) = ''judol'')"

text \<open>
  A response of \<open>session.get\<close>: its status code, and what reading \<open>r.text\<close> does (the
  decoded body, \<open>None\<close>, or an exception raised while decoding).
\<close>

record response =
  resp_status_code :: int
  resp_text :: "py_exception + string option"

text \<open>\<open>r.text or ''\<close>.\<close>

fun or_empty :: "string option \<Rightarrow> string" where
  "or_empty None = []"
| "or_empty (Some t) = (if t = [] then [] else t)"

text \<open>
  \<open>fetch_url\<close>, with the call \<open>session.get(url, timeout=timeout)\<close> as the parameter
  \<open>get\<close>: it returns a response or raises. The result is \<open>Inr\<close> of the returned
  dictionary, or \<open>Inl\<close> of an exception that leaves the function.
\<close>

definition fetch_body ::
  "('s \<Rightarrow> string \<Rightarrow> int \<Rightarrow> py_exception + response) \<Rightarrow> 's \<Rightarrow> string \<Rightarrow> int
     \<Rightarrow> py_exception + pyval" where
  "fetch_body get session url timeout =
     (case get session url timeout of
        Inl e \<Rightarrow> Inl e
      | Inr r \<Rightarrow>
          (case resp_text r of
             Inl e \<Rightarrow> Inl e
           | Inr t \<Rightarrow>
               (let body = or_empty t
                in Inr (PDict
                     [(''url'', PStr url),
                      (''ok'', PBool True),
                      (''status_code'', PInt (resp_status_code r)),
                      (''has_judol'', PBool (has_judol body)),
                      (''exact_judol'', PBool (exact_judol body)),
                      (''length'', PInt (int (length body)))]))))"

definition fetch_url ::
  "('s \<Rightarrow> string \<Rightarrow> int \<Rightarrow> py_exception + response) \<Rightarrow> 's \<Rightarrow> string \<Rightarrow> int
     \<Rightarrow> py_exception + pyval" where
  "fetch_url get session url timeout =
     (case fetch_body get session url timeout of
        Inr d \<Rightarrow> Inr d
      | Inl e \<Rightarrow> Inr (PDict [(''url'', PStr url), (''ok'', PBool False), (''error'', PStr (exc_str e))]))"

section \<open>The sitemap reader\<close>

text \<open>
  An \<open>xml.etree.ElementTree.Element\<close>: its tag in Clark notation (\<open>{namespace}local\<close>, or
  \<open>local\<close> alone without a namespace), its \<open>text\<close> attribute (\<open>None\<close> when the element has
  no character data before its first child) and its children in document order.
\<close>

datatype element = Element (elem_tag: string) (elem_text: "string option") (elem_children: "element list")

text \<open>\<open>Element.iter()\<close>: the element and all elements below it, in document order.\<close>

fun iter :: "element \<Rightarrow> element list" where
  "iter (Element t x cs) = Element t x cs # concat (map iter cs)"

text \<open>
  Tag selection of \<open>findall\<close>: a plain tag selects the elements with that very tag; the
  pattern \<open>{*}local\<close> selects \<open>local\<close> in any namespace or none.
\<close>

definition tag_matches :: "string \<Rightarrow> string \<Rightarrow> bool" where
  "tag_matches pat t =
     (if py_startswith pat ''{*}''
      then t = drop 3 pat \<or> drop (length t - length (drop 2 pat)) t = drop 2 pat
      else t = pat)"

text \<open>\<open>root.findall('.//' + pat)\<close>: the matching elements below the root, root excluded.\<close>

definition findall_descendants :: "element \<Rightarrow> string \<Rightarrow> element list" where
  "findall_descendants root_el pat =
     filter (\<lambda>e. tag_matches pat (elem_tag e)) (concat (map iter (elem_children root_el)))"

text \<open>
  What the XML parser does with a document: it builds the tree, it raises \<open>ParseError\<close>
  on markup that is not well-formed (with the message of the parser), or it raises
  another exception, as the \<open>ValueError\<close> and the \<open>LookupError\<close> for a document in an
  encoding it does not support.
\<close>

datatype parser_result = Tree element | NotWellFormed string | ParserRaises py_exception

text \<open>
  A \<open>urllib3.util.retry.Retry\<close>: the three arguments \<open>make_session\<close> passes, and the two
  defaults that decide which responses are retried.
\<close>

record retry =
  total :: int
  backoff_factor :: rat
  status_forcelist :: "int list"
  allowed_methods :: "string list"
  respect_retry_after_header :: bool

text \<open>
  The surroundings of a run: the files that can be opened and read with their contents,
  what the XML parser does with each document, the headers of a new
  \<open>requests.Session\<close>, what the \<open>session.get\<close> call of the \<open>i\<close>-th submitted task does, and
  the paths that can be opened for writing.
\<close>

record adapter =
  max_retries :: retry

record session =
  adapters :: "(string \<times> adapter) list"
  headers :: "(string \<times> string) list"

record world =
  files :: "string \<rightharpoonup> string"
  xml_parser :: "string \<Rightarrow> parser_result"
  default_headers :: "(string \<times> string) list"
  session_get :: "nat \<Rightarrow> session \<Rightarrow> string \<Rightarrow> int \<Rightarrow> py_exception + response"
  writable :: "string \<Rightarrow> bool"

text \<open>
  \<open>ET.parse(path).getroot()\<close>: \<open>open\<close> refuses a path with a NUL character with a
  \<open>ValueError\<close> and raises an \<open>OSError\<close> for a file it cannot open (its message is
  abstracted to the path); then the parser builds the tree or raises.
\<close>

definition ET_parse :: "world \<Rightarrow> string \<Rightarrow> py_exception + element" where
  "ET_parse w path =
     (if CHR 0x00 \<in> set path then Inl (PyExc ValueError ''embedded null byte'')
      else
        (case files w path of
           None \<Rightarrow> Inl (PyExc OSError path)
         | Some doc \<Rightarrow>
             (case xml_parser w doc of
                Tree root_el \<Rightarrow> Inr root_el
              | NotWellFormed msg \<Rightarrow> Inl (PyExc ParseError msg)
              | ParserRaises e \<Rightarrow> Inl e)))"

definition root_namespace :: "string \<Rightarrow> string" where
  "root_namespace root_tag =
     (if py_startswith root_tag ''{''
      then py_strip_char CHR ''{'' (py_split_first CHR ''}'' root_tag)
      else [])"

text \<open>The comprehension of line 42: elements with a true \<open>text\<close>, each text stripped.\<close>

fun loc_url :: "element \<Rightarrow> string option" where
  "loc_url e =
     (case elem_text e of
        None \<Rightarrow> None
      | Some t \<Rightarrow> if t = [] then None else Some (py_strip t))"

definition parse_sitemap :: "world \<Rightarrow> string \<Rightarrow> py_exception + string list" where
  "parse_sitemap w path =
     (case ET_parse w path of
        Inl e \<Rightarrow> Inl e
      | Inr root_el \<Rightarrow>
          (let ns = root_namespace (elem_tag root_el);
               locs = (if ns \<noteq> []
                       then findall_descendants root_el (''{'' @ ns @ ''}loc'')
                       else findall_descendants root_el ''loc'')
           in Inr (List.map_filter loc_url locs)))"

section \<open>The HTTP session\<close>

text \<open>
  \<open>Session.mount\<close>: the adapter is stored under the prefix, then the shorter prefixes
  move behind it, so that the longest matching prefix is found first.
\<close>

definition mount :: "string \<Rightarrow> adapter \<Rightarrow> session \<Rightarrow> session" where
  "mount prefix a s =
     (let ads = AList.update prefix a (adapters s)
      in s\<lparr>adapters := filter (\<lambda>(k, _). \<not> length k < length prefix) ads
                        @ filter (\<lambda>(k, _). length k < length prefix) ads\<rparr>)"



text \<open>The headers are a case-insensitive dictionary: a key is found in any case.\<close>

fun header_update :: "string \<Rightarrow> string \<Rightarrow> (string \<times> string) list \<Rightarrow> (string \<times> string) list" where
  "header_update k v [] = [(k, v)]"
| "header_update k v ((k', v') # hs) =
     (if py_lower k' = py_lower k then (k, v) # hs else (k', v') # header_update k v hs)"


text \<open>
  \<open>Retry(total=..., backoff_factor=..., status_forcelist=...)\<close>: the other arguments keep
  their defaults, the idempotent methods and respect for a \<open>Retry-After\<close> header.
\<close>

definition Retry :: "int \<Rightarrow> rat \<Rightarrow> int list \<Rightarrow> retry" where
  "Retry n backoff forcelist =
     \<lparr>total = n, backoff_factor = backoff, status_forcelist = forcelist,
      allowed_methods = [''HEAD'', ''GET'', ''PUT'', ''DELETE'', ''OPTIONS'', ''TRACE''],
      respect_retry_after_header = True\<rparr>"









text \<open>A new \<open>requests.Session()\<close>: both schemes mounted with an adapter that never retries.\<close>

definition default_adapter :: adapter where
  "default_adapter = \<lparr>max_retries = Retry 0 0 []\<rparr>"

definition requests_Session :: "world \<Rightarrow> session" where
  "requests_Session w =
     mount ''http://'' default_adapter
       (mount ''https://'' default_adapter \<lparr>adapters = [], headers = default_headers w\<rparr>)"

definition make_session :: "world \<Rightarrow> int \<Rightarrow> rat \<Rightarrow> int \<Rightarrow> session" where
  "make_session w retries backoff timeout =
     (let s = requests_Session w;
          retry = Retry retries backoff [500, 502, 503, 504];
          adapter = \<lparr>max_retries = retry\<rparr>;
          s = mount ''http://'' adapter s;
          s = mount ''https://'' adapter s
      in s\<lparr>headers := header_update ''User-Agent'' ''judol-checker/1.0'' (headers s)\<rparr>)"

section \<open>The report as a JSON document\<close>

text \<open>
  \<open>json.dump(report, fh, indent=2, ensure_ascii=False)\<close>: the encoder escapes the quote,
  the backslash and the control characters below U+0020 and writes every other character
  as it is.
\<close>

definition hex_digit :: "nat \<Rightarrow> char" where
  "hex_digit n = (if n < 10 then char_of (48 + n) else char_of (87 + n))"

definition escape_char :: "char \<Rightarrow> string" where
  "escape_char c =
     (if c = CHR 0x22 then [CHR 0x5C, CHR 0x22]
      else if c = CHR 0x5C then [CHR 0x5C, CHR 0x5C]
      else if c = CHR 0x0A then [CHR 0x5C, CHR ''n'']
      else if c = CHR 0x0D then [CHR 0x5C, CHR ''r'']
      else if c = CHR 0x09 then [CHR 0x5C, CHR ''t'']
      else if c = CHR 0x08 then [CHR 0x5C, CHR ''b'']
      else if c = CHR 0x0C then [CHR 0x5C, CHR ''f'']
      else if (of_char c :: nat) < 32
        then [CHR 0x5C, CHR ''u'', CHR ''0'', CHR ''0'',
              hex_digit ((of_char c :: nat) div 16), hex_digit ((of_char c :: nat) mod 16)]
      else [c])"

definition encode_basestring :: "string \<Rightarrow> string" where
  "encode_basestring s = CHR 0x22 # concat (map escape_char s) @ [CHR 0x22]"

text \<open>\<open>int.__repr__\<close>: the decimal digits, after a minus sign for a negative number.\<close>

fun digits :: "nat \<Rightarrow> string" where
  "digits n = (if n < 10 then [char_of (48 + n)] else digits (n div 10) @ [char_of (48 + n mod 10)])"

declare digits.simps [simp del]

definition int_repr :: "int \<Rightarrow> string" where
  "int_repr i = (if i < 0 then CHR ''-'' # digits (nat (- i)) else digits (nat i))"

definition newline_indent :: "nat \<Rightarrow> string" where
  "newline_indent level = CHR 0x0A # replicate (2 * level) CHR '' ''"

text \<open>
  The encoder at a nesting level: \<open>iterencode_list\<close> and \<open>iterencode_dict\<close> write the
  items after the first, each behind the item separator and the indentation.
\<close>

fun iterencode :: "nat \<Rightarrow> pyval \<Rightarrow> string"
  and iterencode_list :: "nat \<Rightarrow> pyval list \<Rightarrow> string"
  and iterencode_dict :: "nat \<Rightarrow> (string \<times> pyval) list \<Rightarrow> string" where
  "iterencode lvl PNone = ''null''"
| "iterencode lvl (PBool b) = (if b then ''true'' else ''false'')"
| "iterencode lvl (PInt i) = int_repr i"
| "iterencode lvl (PStr s) = encode_basestring s"
| "iterencode lvl (PList []) = ''[]''"
| "iterencode lvl (PList (x # xs)) =
     ''['' @ newline_indent (Suc lvl) @ iterencode (Suc lvl) x @ iterencode_list (Suc lvl) xs
       @ newline_indent lvl @ '']''"
| "iterencode lvl (PDict []) = ''{}''"
| "iterencode lvl (PDict ((k, v) # kvs)) =
     ''{'' @ newline_indent (Suc lvl) @ encode_basestring k @ '': '' @ iterencode (Suc lvl) v
       @ iterencode_dict (Suc lvl) kvs @ newline_indent lvl @ ''}''"
| "iterencode_list lvl [] = []"
| "iterencode_list lvl (x # xs) =
     '','' @ newline_indent lvl @ iterencode lvl x @ iterencode_list lvl xs"
| "iterencode_dict lvl [] = []"
| "iterencode_dict lvl ((k, v) # kvs) =
     '','' @ newline_indent lvl @ encode_basestring k @ '': '' @ iterencode lvl v
       @ iterencode_dict lvl kvs"

definition json_dumps :: "pyval \<Rightarrow> string" where
  "json_dumps v = iterencode 0 v"

text \<open>
  \<open>json.load\<close>, for documents without floating-point numbers: \<open>None\<close> stands for a
  \<open>JSONDecodeError\<close>, and for a document with a float or with a four-digit escape of a
  code point that is not modelled.
\<close>

definition json_ws :: "char \<Rightarrow> bool" where
  "json_ws c = (c = CHR '' '' \<or> c = CHR 0x09 \<or> c = CHR 0x0A \<or> c = CHR 0x0D)"

definition skip_ws :: "string \<Rightarrow> string" where
  "skip_ws s = dropWhile json_ws s"

definition hex_value :: "char \<Rightarrow> nat option" where
  "hex_value c =
     (let n = (of_char c :: nat)
      in if 48 \<le> n \<and> n \<le> 57 then Some (n - 48)
         else if 97 \<le> n \<and> n \<le> 102 then Some (n - 87)
         else if 65 \<le> n \<and> n \<le> 70 then Some (n - 55)
         else None)"

definition hex4 :: "char \<Rightarrow> char \<Rightarrow> char \<Rightarrow> char \<Rightarrow> nat option" where
  "hex4 a b c d =
     (case (hex_value a, hex_value b, hex_value c, hex_value d) of
        (Some x, Some y, Some z, Some u) \<Rightarrow> Some (((x * 16 + y) * 16 + z) * 16 + u)
      | _ \<Rightarrow> None)"

definition unescape :: "char \<Rightarrow> char option" where
  "unescape e =
     (if e = CHR 0x22 then Some (CHR 0x22)
      else if e = CHR 0x5C then Some (CHR 0x5C)
      else if e = CHR ''/'' then Some (CHR ''/'')
      else if e = CHR ''b'' then Some (CHR 0x08)
      else if e = CHR ''f'' then Some (CHR 0x0C)
      else if e = CHR ''n'' then Some (CHR 0x0A)
      else if e = CHR ''r'' then Some (CHR 0x0D)
      else if e = CHR ''t'' then Some (CHR 0x09)
      else None)"

definition cons_fst :: "'a \<Rightarrow> ('a list \<times> 'b) option \<Rightarrow> ('a list \<times> 'b) option" where
  "cons_fst x r = map_option (\<lambda>(xs, rest). (x # xs, rest)) r"

text \<open>\<open>scanstring\<close>, behind the opening quote: the decoded string and the text behind
  the closing quote. A raw control character is refused (strict mode).\<close>

fun scanstring :: "string \<Rightarrow> (string \<times> string) option" where
  "scanstring [] = None"
| "scanstring (c # cs) =
     (if c = CHR 0x22 then Some ([], cs)
      else if c = CHR 0x5C then
        (case cs of
           [] \<Rightarrow> None
         | e # r \<Rightarrow>
             if e = CHR ''u'' then
               (case r of
                  h1 # h2 # h3 # h4 # r' \<Rightarrow>
                    (case hex4 h1 h2 h3 h4 of
                       None \<Rightarrow> None
                     | Some n \<Rightarrow> if n < 256 then cons_fst (char_of n) (scanstring r') else None)
                | _ \<Rightarrow> None)
             else
               (case unescape e of
                  None \<Rightarrow> None
                | Some ch \<Rightarrow> cons_fst ch (scanstring r)))
      else if (of_char c :: nat) < 32 then None
      else cons_fst c (scanstring cs))"

definition is_digit :: "char \<Rightarrow> bool" where
  "is_digit c = (48 \<le> (of_char c :: nat) \<and> (of_char c :: nat) \<le> 57)"

definition digits_value :: "string \<Rightarrow> nat" where
  "digits_value ds = foldl (\<lambda>n c. 10 * n + ((of_char c :: nat) - 48)) 0 ds"

text \<open>The integer part the number pattern matches: \<open>0\<close>, or digits not starting with 0.\<close>

definition int_part :: "string \<Rightarrow> (string \<times> string) option" where
  "int_part s =
     (case s of
        [] \<Rightarrow> None
      | c # cs \<Rightarrow>
          if c = CHR ''0'' then Some ([c], cs)
          else if is_digit c then Some (takeWhile is_digit s, dropWhile is_digit s)
          else None)"

text \<open>A fraction or an exponent behind the integer part makes the number a float.\<close>

definition float_follows :: "string \<Rightarrow> bool" where
  "float_follows s =
     (case s of
        [] \<Rightarrow> False
      | c # cs \<Rightarrow>
          if c = CHR ''.'' then (case cs of [] \<Rightarrow> False | d # _ \<Rightarrow> is_digit d)
          else if c = CHR ''e'' \<or> c = CHR ''E'' then
            (case cs of
               [] \<Rightarrow> False
             | d # ds \<Rightarrow>
                 if d = CHR ''+'' \<or> d = CHR ''-''
                 then (case ds of [] \<Rightarrow> False | x # _ \<Rightarrow> is_digit x)
                 else is_digit d)
          else False)"

definition scan_number :: "string \<Rightarrow> (pyval \<times> string) option" where
  "scan_number s =
     (let neg = py_startswith s ''-'';
          body = (if neg then drop 1 s else s)
      in case int_part body of
           None \<Rightarrow> None
         | Some (ds, rest) \<Rightarrow>
             if float_follows rest then None
             else Some (PInt (if neg then - int (digits_value ds) else int (digits_value ds)), rest))"

text \<open>\<open>dict(pairs)\<close>: a repeated key keeps its first place and takes the last value.\<close>

definition dict_of_pairs :: "(string \<times> pyval) list \<Rightarrow> (string \<times> pyval) list" where
  "dict_of_pairs kvs = foldl (\<lambda>d (k, v). AList.update k v d) [] kvs"

text \<open>
  The scanner, with the nesting it may still enter as its first argument:
  \<open>array_items\<close> is the loop of \<open>JSONArray\<close> at a value, \<open>object_items\<close> the loop of
  \<open>JSONObject\<close> behind the opening quote of a key.
\<close>

fun scan_once :: "nat \<Rightarrow> string \<Rightarrow> (pyval \<times> string) option"
  and array_items :: "nat \<Rightarrow> string \<Rightarrow> (pyval list \<times> string) option"
  and object_items :: "nat \<Rightarrow> string \<Rightarrow> ((string \<times> pyval) list \<times> string) option" where
  "scan_once 0 s = None"
| "scan_once (Suc n) s =
     (case s of
        [] \<Rightarrow> None
      | c # cs \<Rightarrow>
          if c = CHR 0x22 then map_option (\<lambda>(x, r). (PStr x, r)) (scanstring cs)
          else if c = CHR ''{'' then
            (case skip_ws cs of
               [] \<Rightarrow> None
             | d # ds \<Rightarrow>
                 if d = CHR ''}'' then Some (PDict [], ds)
                 else if d = CHR 0x22
                   then map_option (\<lambda>(kvs, r). (PDict (dict_of_pairs kvs), r)) (object_items n ds)
                 else None)
          else if c = CHR ''['' then
            (case skip_ws cs of
               [] \<Rightarrow> None
             | d # ds \<Rightarrow>
                 if d = CHR '']'' then Some (PList [], ds)
                 else map_option (\<lambda>(vs, r). (PList vs, r)) (array_items n (d # ds)))
          else if py_startswith s ''null'' then Some (PNone, drop 4 s)
          else if py_startswith s ''true'' then Some (PBool True, drop 4 s)
          else if py_startswith s ''false'' then Some (PBool False, drop 5 s)
          else scan_number s)"
| "array_items 0 s = None"
| "array_items (Suc n) s =
     (case scan_once n s of
        None \<Rightarrow> None
      | Some (v, r) \<Rightarrow>
          (case skip_ws r of
             [] \<Rightarrow> None
           | d # ds \<Rightarrow>
               if d = CHR '']'' then Some ([v], ds)
               else if d = CHR '','' then cons_fst v (array_items n (skip_ws ds))
               else None))"
| "object_items 0 s = None"
| "object_items (Suc n) s =
     (case scanstring s of
        None \<Rightarrow> None
      | Some (key, r) \<Rightarrow>
          (case skip_ws r of
             [] \<Rightarrow> None
           | c # cs \<Rightarrow>
               if c \<noteq> CHR '':'' then None
               else
                 (case scan_once n (skip_ws cs) of
                    None \<Rightarrow> None
                  | Some (v, r2) \<Rightarrow>
                      (case skip_ws r2 of
                         [] \<Rightarrow> None
                       | d # ds \<Rightarrow>
                           if d = CHR ''}'' then Some ([(key, v)], ds)
                           else if d = CHR '','' then
                             (case skip_ws ds of
                                [] \<Rightarrow> None
                              | q # qs \<Rightarrow>
                                  if q = CHR 0x22 then cons_fst (key, v) (object_items n qs)
                                  else None)
                           else None))))"

text \<open>The whole document is one value between whitespace; every entered nesting and
  every item uses a character, so twice the length of the document is fuel enough.\<close>

definition json_loads :: "string \<Rightarrow> pyval option" where
  "json_loads s =
     (case scan_once (2 * length s + 2) (skip_ws s) of
        None \<Rightarrow> None
      | Some (v, rest) \<Rightarrow> if skip_ws rest = [] then Some v else None)"

section \<open>The worker pool and \<open>run_checker\<close>\<close>

text \<open>
  A future is a submitted task: its number in submission order and its URL (the
  dictionary \<open>futures\<close> of line 80 maps each future to its URL; two futures for the same
  URL are two keys).
\<close>

type_synonym future = "nat \<times> string"

definition submit_all :: "string list \<Rightarrow> future list" where
  "submit_all urls = zip [0..<length urls] urls"

text \<open>
  The pool: the futures waiting in the work queue, those a worker thread is running,
  and those that have completed, in completion order. A worker takes the first waiting
  future while fewer than \<open>max_workers\<close> are running; any running future may complete
  next.
\<close>

record pool =
  queued :: "future list"
  running :: "future list"
  completed :: "future list"

inductive pool_step :: "nat \<Rightarrow> pool \<Rightarrow> pool \<Rightarrow> bool" for max_workers :: nat where
  start:
    "queued p = f # q \<Longrightarrow> length (running p) < max_workers \<Longrightarrow>
     pool_step max_workers p \<lparr>queued = q, running = running p @ [f], completed = completed p\<rparr>"
| complete:
    "running p = xs @ f # ys \<Longrightarrow>
     pool_step max_workers p \<lparr>queued = queued p, running = xs @ ys, completed = completed p @ [f]\<rparr>"

text \<open>The pool has shut down when no future waits and none runs.\<close>

definition pool_idle :: "pool \<Rightarrow> bool" where
  "pool_idle p = (queued p = [] \<and> running p = [])"

definition pool_run :: "nat \<Rightarrow> future list \<Rightarrow> future list \<Rightarrow> bool" where
  "pool_run max_workers fs order =
     (\<exists>p. (pool_step max_workers)\<^sup>*\<^sup>* \<lparr>queued = fs, running = [], completed = []\<rparr> p
          \<and> pool_idle p \<and> completed p = order)"

text \<open>
  \<open>f.result()\<close> in the loop of line 81: the value \<open>fetch_url\<close> returned in the worker, or
  the exception it raised there, raised again.
\<close>

definition future_result :: "world \<Rightarrow> session \<Rightarrow> int \<Rightarrow> future \<Rightarrow> py_exception + pyval" where
  "future_result w s timeout f = fetch_url (session_get w (fst f)) s (snd f) timeout"

fun collect :: "(py_exception + pyval) list \<Rightarrow> py_exception + pyval list" where
  "collect [] = Inr []"
| "collect (Inl e # rs) = Inl e"
| "collect (Inr v # rs) = (case collect rs of Inl e \<Rightarrow> Inl e | Inr vs \<Rightarrow> Inr (v # vs))"

text \<open>
  \<open>run_checker\<close> relates its arguments to each outcome a run can have: an exception
  that leaves the function, or the returned report together with the files after the
  run. The order in which the futures complete is the only choice a run has.
\<close>

inductive run_checker ::
  "world \<Rightarrow> string \<Rightarrow> string \<Rightarrow> int \<Rightarrow> int
     \<Rightarrow> py_exception + pyval \<times> (string \<rightharpoonup> string) \<Rightarrow> bool" where
  sitemap_error:
    "parse_sitemap w sitemap = Inl e \<Longrightarrow>
     run_checker w sitemap output concurrency timeout (Inl e)"
| pool_error:
    "parse_sitemap w sitemap = Inr urls \<Longrightarrow> concurrency \<le> 0 \<Longrightarrow>
     run_checker w sitemap output concurrency timeout
       (Inl (PyExc ValueError ''max_workers must be greater than 0''))"
| result_error:
    "parse_sitemap w sitemap = Inr urls \<Longrightarrow> 0 < concurrency \<Longrightarrow>
     pool_run (nat concurrency) (submit_all urls) order \<Longrightarrow>
     collect (map (future_result w (make_session w 3 (3 / 10) 10) timeout) order) = Inl e \<Longrightarrow>
     run_checker w sitemap output concurrency timeout (Inl e)"
| write_error:
    "parse_sitemap w sitemap = Inr urls \<Longrightarrow> 0 < concurrency \<Longrightarrow>
     pool_run (nat concurrency) (submit_all urls) order \<Longrightarrow>
     collect (map (future_result w (make_session w 3 (3 / 10) 10) timeout) order) = Inr results \<Longrightarrow>
     \<not> writable w output \<Longrightarrow>
     run_checker w sitemap output concurrency timeout (Inl (PyExc OSError output))"
| report:
    "parse_sitemap w sitemap = Inr urls \<Longrightarrow> 0 < concurrency \<Longrightarrow>
     pool_run (nat concurrency) (submit_all urls) order \<Longrightarrow>
     collect (map (future_result w (make_session w 3 (3 / 10) 10) timeout) order) = Inr results \<Longrightarrow>
     writable w output \<Longrightarrow>
     rep = PDict [(''sitemap'', PStr sitemap), (''count'', PInt (int (length urls))),
                  (''results'', PList results)] \<Longrightarrow>
     run_checker w sitemap output concurrency timeout
       (Inr (rep, (files w)(output \<mapsto> json_dumps rep)))"

text \<open>Reading a key of a dictionary.\<close>

definition dict_get :: "pyval \<Rightarrow> string \<Rightarrow> pyval option" where
  "dict_get d k = (case d of PDict kvs \<Rightarrow> map_of kvs k | _ \<Rightarrow> None)"

text \<open>The futures of a pool, wherever they are.\<close>

definition pool_futures :: "pool \<Rightarrow> future multiset" where
  "pool_futures p = mset (queued p) + mset (running p) + mset (completed p)"

text \<open>
  A small world for the concrete runs: a sitemap that repeats a URL, a sitemap whose only
  \<open>loc\<close> element holds a blank, a file that is not well-formed, a well-formed sitemap
  declared in Shift_JIS, and no file \<open>missing.xml\<close>. One host answers with a defaced
  page, the other refuses the connection.
\<close>

definition demo_document :: string where
  "demo_document =
     ''<urlset><url><loc>http://a.example/</loc></url>''
     @ ''<url><loc> http://b.example/ </loc><priority/></url>''
     @ ''<url><loc>http://a.example/</loc></url></urlset>''"

definition blank_document :: string where
  "blank_document = ''<urlset><url><loc> </loc></url></urlset>''"

definition sjis_document :: string where
  "sjis_document =
     ''<?xml version='' @ [CHR 0x22] @ ''1.0'' @ [CHR 0x22] @ '' encoding='' @ [CHR 0x22]
     @ ''Shift_JIS'' @ [CHR 0x22] @ ''?><urlset/>''"

definition demo_sitemap :: element where
  "demo_sitemap =
     Element ''urlset'' None
       [Element ''url'' None [Element ''loc'' (Some ''http://a.example/'') []],
        Element ''url'' None [Element ''loc'' (Some '' http://b.example/ '') [], Element ''priority'' None []],
        Element ''url'' None [Element ''loc'' (Some ''http://a.example/'') []]]"

definition blank_sitemap :: element where
  "blank_sitemap = Element ''urlset'' None [Element ''url'' None [Element ''loc'' (Some '' '') []]]"

definition demo_get :: "nat \<Rightarrow> session \<Rightarrow> string \<Rightarrow> int \<Rightarrow> py_exception + response" where
  "demo_get i s u t =
     (if u = ''http://a.example/''
      then Inr \<lparr>resp_status_code = 200, resp_text = Inr (Some ''JUDOL'')\<rparr>
      else Inl (PyExc RequestException ''Connection refused''))"

definition demo_parser :: "string \<Rightarrow> parser_result" where
  "demo_parser doc =
     (if doc = demo_document then Tree demo_sitemap
      else if doc = blank_document then Tree blank_sitemap
      else if doc = sjis_document
        then ParserRaises (PyExc ValueError ''multi-byte encodings are not supported'')
      else NotWellFormed ''no element found: line 1, column 8'')"

definition demo_world :: world where
  "demo_world =
     \<lparr>files = [''sitemap.xml'' \<mapsto> demo_document,
               ''blank.xml'' \<mapsto> blank_document,
               ''broken.xml'' \<mapsto> ''<urlset>'',
               ''sjis.xml'' \<mapsto> sjis_document],
      xml_parser = demo_parser,
      default_headers = [(''User-Agent'', ''python-requests''), (''Accept'', ''*/*'')],
      session_get = demo_get,
      writable = (\<lambda>path. path = ''judol_report.json'')\<rparr>"

text \<open>
  What may stand behind a number in a document: nothing, or a character that continues
  neither the digits nor a fraction or an exponent.
\<close>

definition value_end :: "string \<Rightarrow> bool" where
  "value_end rest =
     (case rest of
        [] \<Rightarrow> True
      | c # _ \<Rightarrow> \<not> is_digit c \<and> c \<noteq> CHR ''.'' \<and> c \<noteq> CHR ''e'' \<and> c \<noteq> CHR ''E'')"

text \<open>
  The values whose dictionaries repeat no key, and the nesting the scanner has to enter
  to read a value back.
\<close>

fun distinct_keys :: "pyval \<Rightarrow> bool"
  and distinct_keys_list :: "pyval list \<Rightarrow> bool"
  and distinct_keys_dict :: "(string \<times> pyval) list \<Rightarrow> bool" where
  "distinct_keys PNone = True"
| "distinct_keys (PBool b) = True"
| "distinct_keys (PInt i) = True"
| "distinct_keys (PStr s) = True"
| "distinct_keys (PList xs) = distinct_keys_list xs"
| "distinct_keys (PDict kvs) = (distinct (map fst kvs) \<and> distinct_keys_dict kvs)"
| "distinct_keys_list [] = True"
| "distinct_keys_list (x # xs) = (distinct_keys x \<and> distinct_keys_list xs)"
| "distinct_keys_dict [] = True"
| "distinct_keys_dict ((k, v) # kvs) = (distinct_keys v \<and> distinct_keys_dict kvs)"

fun scan_fuel :: "pyval \<Rightarrow> nat"
  and scan_fuel_list :: "pyval list \<Rightarrow> nat"
  and scan_fuel_dict :: "(string \<times> pyval) list \<Rightarrow> nat" where
  "scan_fuel PNone = 1"
| "scan_fuel (PBool b) = 1"
| "scan_fuel (PInt i) = 1"
| "scan_fuel (PStr s) = 1"
| "scan_fuel (PList []) = 1"
| "scan_fuel (PList (x # xs)) = 2 + scan_fuel x + scan_fuel_list xs"
| "scan_fuel (PDict []) = 1"
| "scan_fuel (PDict ((k, v) # kvs)) = 2 + scan_fuel v + scan_fuel_dict kvs"
| "scan_fuel_list [] = 0"
| "scan_fuel_list (x # xs) = 1 + scan_fuel x + scan_fuel_list xs"
| "scan_fuel_dict [] = 0"
| "scan_fuel_dict ((k, v) # kvs) = 1 + scan_fuel v + scan_fuel_dict kvs"

text \<open>The report of the run of the small world in which the futures complete in
  submission order.\<close>

definition demo_report :: pyval where
  "demo_report =
     PDict
       [(''sitemap'', PStr ''sitemap.xml''),
        (''count'', PInt 3),
        (''results'',
         PList
           [PDict [(''url'', PStr ''http://a.example/''), (''ok'', PBool True), (''status_code'', PInt 200),
                   (''has_judol'', PBool True), (''exact_judol'', PBool True), (''length'', PInt 5)],
            PDict [(''url'', PStr ''http://b.example/''), (''ok'', PBool False),
                   (''error'', PStr ''Connection refused'')],
            PDict [(''url'', PStr ''http://a.example/''), (''ok'', PBool True), (''status_code'', PInt 200),
                   (''has_judol'', PBool True), (''exact_judol'', PBool True), (''length'', PInt 5)]])]"

section \<open>The properties in the words of the specification\<close>

text \<open>The lowercased body contains one of the four keywords as a substring.\<close>

definition spec_hasMarker :: "string \<Rightarrow> bool" where
  "spec_hasMarker body =
     (\<exists>k ps ss. k \<in> {''judol'', ''gacor'', ''togel'', ''maxwin''} \<and> py_lower body = ps @ k @ ss)"

text \<open>
  \<open>mid\<close> is the body trimmed of leading and trailing whitespace: the body is \<open>mid\<close>
  between two runs of whitespace, and \<open>mid\<close> neither starts nor ends with whitespace.
\<close>

definition trimmed_of :: "string \<Rightarrow> string \<Rightarrow> bool" where
  "trimmed_of body mid =
     (\<exists>pre post. body = pre @ mid @ post \<and> list_all py_isspace pre \<and> list_all py_isspace post
        \<and> (mid = [] \<or> (\<not> py_isspace (hd mid) \<and> \<not> py_isspace (last mid))))"

definition spec_isExactMarker :: "string \<Rightarrow> bool" where
  "spec_isExactMarker body = (\<exists>mid. trimmed_of body mid \<and> py_lower mid = ''judol'')"

section \<open>Strings\<close>

lemma py_startswith_iff: "py_startswith s k \<longleftrightarrow> (\<exists>ss. s = k @ ss)"
  by (induction s k rule: py_startswith.induct) auto

lemma py_in_iff: "py_in k s \<longleftrightarrow> (\<exists>ps ss. s = ps @ k @ ss)"
proof (induction s)
  case Nil
  then show ?case by auto
next
  case (Cons c cs)
  show ?case
  proof
    assume "py_in k (c # cs)"
    then consider "py_startswith (c # cs) k" | "py_in k cs" by auto
    then show "\<exists>ps ss. c # cs = ps @ k @ ss"
    proof cases
      case 1
      then obtain ss where "c # cs = k @ ss" by (auto simp: py_startswith_iff)
      then have "c # cs = [] @ k @ ss" by simp
      then show ?thesis by blast
    next
      case 2
      then obtain ps ss where "cs = ps @ k @ ss" using Cons.IH by auto
      then have "c # cs = (c # ps) @ k @ ss" by simp
      then show ?thesis by blast
    qed
  next
    assume "\<exists>ps ss. c # cs = ps @ k @ ss"
    then obtain ps ss where eq: "c # cs = ps @ k @ ss" by blast
    show "py_in k (c # cs)"
    proof (cases ps)
      case Nil
      then have "py_startswith (c # cs) k" using eq by (auto simp: py_startswith_iff)
      then show ?thesis by simp
    next
      case (Cons p ps')
      then have "cs = ps' @ k @ ss" using eq by simp
      then have "py_in k cs" using Cons.IH by blast
      then show ?thesis by simp
    qed
  qed
qed

lemma py_any_map_iff: "py_any (map P xs) \<longleftrightarrow> (\<exists>x. x \<in> set xs \<and> P x)"
  by (induction xs) auto

lemma trimmed_of_py_strip: "trimmed_of body (py_strip body)"
proof -
  define d where "d = dropWhile py_isspace body"
  define m where "m = dropWhile py_isspace (rev d)"
  have strip: "py_strip body = rev m" by (simp add: py_strip_def d_def m_def)
  have "rev d = takeWhile py_isspace (rev d) @ m" by (simp add: m_def)
  then have "rev (rev d) = rev (takeWhile py_isspace (rev d) @ m)" by simp
  then have d_split: "d = rev m @ rev (takeWhile py_isspace (rev d))" by simp
  have body_split: "body = takeWhile py_isspace body @ rev m @ rev (takeWhile py_isspace (rev d))"
    using d_split takeWhile_dropWhile_id [of py_isspace body] by (simp add: d_def)
  have pre: "list_all py_isspace (takeWhile py_isspace body)"
    by (simp add: list_all_iff) (meson set_takeWhileD)
  have post: "list_all py_isspace (rev (takeWhile py_isspace (rev d)))"
    by (simp add: list_all_iff) (meson set_takeWhileD)
  have ends: "rev m = [] \<or> (\<not> py_isspace (hd (rev m)) \<and> \<not> py_isspace (last (rev m)))"
  proof (cases "m = []")
    case True
    then show ?thesis by simp
  next
    case False
    then have l: "\<not> py_isspace (hd m)" unfolding m_def by (rule hd_dropWhile)
    have "d \<noteq> []" using d_split False by auto
    then have "\<not> py_isspace (hd d)" unfolding d_def by (rule hd_dropWhile)
    moreover have "hd d = hd (rev m)" using d_split False by (metis hd_append2 rev_is_Nil_conv)
    ultimately show ?thesis using l False by (simp add: last_rev)
  qed
  show ?thesis
    unfolding trimmed_of_def strip using body_split pre post ends by blast
qed

lemma trimmed_of_unique:
  assumes "trimmed_of body mid"
  shows "mid = py_strip body"
proof -
  from assms obtain pre post where
    body: "body = pre @ mid @ post" and pre: "list_all py_isspace pre"
    and post: "list_all py_isspace post"
    and ends: "mid = [] \<or> (\<not> py_isspace (hd mid) \<and> \<not> py_isspace (last mid))"
    unfolding trimmed_of_def by blast
  show ?thesis
  proof (cases "mid = []")
    case True
    then have "list_all py_isspace body" using body pre post by simp
    then have dw: "dropWhile py_isspace body = []" by (simp add: list_all_iff)
    show ?thesis unfolding py_strip_def dw using True by simp
  next
    case False
    then obtain x xs where mid: "mid = x # xs" by (cases mid) auto
    have nx: "\<not> py_isspace x" using ends mid by simp
    have "dropWhile py_isspace body = mid @ post"
      using body pre nx mid by (simp add: dropWhile_append3 list_all_iff)
    then have r: "rev (dropWhile py_isspace body) = rev post @ rev mid" by simp
    have "rev mid \<noteq> []" using False by simp
    moreover have "\<not> py_isspace (hd (rev mid))" using ends False by (simp add: hd_rev)
    ultimately obtain y ys where rm: "rev mid = y # ys" and ny: "\<not> py_isspace y"
      by (cases "rev mid") auto
    have "dropWhile py_isspace (rev post @ rev mid) = rev mid"
      using post ny rm by (simp add: dropWhile_append3 list_all_iff)
    then show ?thesis using r by (simp add: py_strip_def)
  qed
qed

lemma py_strip_infix: "\<exists>pre post. body = pre @ py_strip body @ post"
  using trimmed_of_py_strip [of body] unfolding trimmed_of_def by blast

section \<open>The page scanner\<close>

text \<open>
  Claim C3. For every body text, the flag \<open>has_judol\<close> that \<open>fetch_url\<close> computes is true
  if and only if the lowercased body contains at least one of the keywords "judol",
  "gacor", "togel", "maxwin" as a substring.
\<close>

theorem has_judol_iff_keyword_substring: "has_judol body \<longleftrightarrow> spec_hasMarker body"
  unfolding has_judol_def spec_hasMarker_def Let_def py_any_map_iff py_in_iff marker_keywords_def
  by auto

theorem has_judol_iff_keyword_substring_witness: "spec_hasMarker ''Slot GACOR hari ini''"
proof -
  have "has_judol ''Slot GACOR hari ini''" by code_simp
  then show ?thesis using has_judol_iff_keyword_substring [of "''Slot GACOR hari ini''"] by simp
qed

text \<open>
  Claim C4. For every body text, the flag \<open>exact_judol\<close> is true if and only if the body,
  after trimming leading and trailing whitespace and lowercasing, is exactly "judol".
\<close>

theorem exact_judol_iff_trimmed_lower_judol: "exact_judol body \<longleftrightarrow> spec_isExactMarker body"
  unfolding exact_judol_def spec_isExactMarker_def
  using trimmed_of_py_strip trimmed_of_unique by blast

theorem exact_judol_iff_trimmed_lower_judol_witness:
  "spec_isExactMarker
     [CHR 0x0A, CHR '' '', CHR ''J'', CHR ''u'', CHR ''D'', CHR ''o'', CHR ''L'', CHR 0x0D, CHR 0x0A]"
proof -
  have "exact_judol
     [CHR 0x0A, CHR '' '', CHR ''J'', CHR ''u'', CHR ''D'', CHR ''o'', CHR ''L'', CHR 0x0D, CHR 0x0A]"
    by code_simp
  then show ?thesis using exact_judol_iff_trimmed_lower_judol by simp
qed

text \<open>
  Claim C5. For every body text, \<open>exact_judol\<close> true implies \<open>has_judol\<close> true: whenever the
  trimmed lowercased body equals "judol", the lowercased body contains a keyword of the
  marker set as a substring.
\<close>

theorem exact_judol_implies_has_judol: "exact_judol body \<Longrightarrow> has_judol body"
proof -
  assume e: "exact_judol body"
  obtain pre post where "body = pre @ py_strip body @ post" using py_strip_infix by blast
  then have "py_lower body = py_lower pre @ py_lower (py_strip body) @ py_lower post"
    unfolding py_lower_def by (metis map_append)
  then have "py_lower body = py_lower pre @ ''judol'' @ py_lower post"
    using e by (simp add: exact_judol_def)
  then have "py_in ''judol'' (py_lower body)" unfolding py_in_iff by blast
  then show ?thesis by (simp add: has_judol_def marker_keywords_def)
qed

theorem exact_judol_implies_has_judol_witness: "has_judol ''  JUDOL  ''"
proof -
  have "exact_judol ''  JUDOL  ''" by code_simp
  then show ?thesis by (rule exact_judol_implies_has_judol)
qed

section \<open>\<open>fetch_url\<close>\<close>

lemma fetch_url_total: "\<exists>d. fetch_url get s url timeout = Inr d"
  by (auto simp: fetch_url_def split: sum.splits)

lemma fetch_url_success:
  assumes "get s url timeout = Inr r" and "resp_text r = Inr t"
  shows "fetch_url get s url timeout =
           Inr (PDict [(''url'', PStr url), (''ok'', PBool True),
                       (''status_code'', PInt (resp_status_code r)),
                       (''has_judol'', PBool (has_judol (or_empty t))),
                       (''exact_judol'', PBool (exact_judol (or_empty t))),
                       (''length'', PInt (int (length (or_empty t))))])"
  using assms by (simp add: fetch_url_def fetch_body_def Let_def)

text \<open>
  Claim C2. For every URL and every behaviour of the underlying GET (connection refusal,
  DNS failure, timeout, decode failure or any other exception), \<open>fetch_url\<close> never
  raises: the exception is caught and returned as the failure dictionary with the keys
  \<open>url\<close>, \<open>ok\<close> (false) and \<open>error\<close> (the text of the exception).
\<close>

theorem fetch_url_never_raises:
  "(\<exists>d. fetch_url get s url timeout = Inr d) \<and>
   (\<forall>e. get s url timeout = Inl e \<or> (\<exists>r. get s url timeout = Inr r \<and> resp_text r = Inl e)
      \<longrightarrow> fetch_url get s url timeout
            = Inr (PDict [(''url'', PStr url), (''ok'', PBool False), (''error'', PStr (exc_str e))]))"
  by (auto simp: fetch_url_def fetch_body_def split: sum.splits)

theorem fetch_url_never_raises_witness:
  "fetch_url (\<lambda>s u t. Inl (PyExc RequestException ''Connection refused'')) () ''http://c.example/'' 10
     = Inr (PDict [(''url'', PStr ''http://c.example/''), (''ok'', PBool False),
                   (''error'', PStr ''Connection refused'')])"
  using fetch_url_never_raises
    [of "\<lambda>s u t. Inl (PyExc RequestException ''Connection refused'')" "()" "''http://c.example/''" 10]
  by simp

section \<open>The session\<close>







text \<open>
  Claim C10. The \<open>timeout\<close> parameter of \<open>make_session\<close> has no effect on the returned
  session: any two timeout values give the same session, and so the same result of
  \<open>fetch_url\<close>, whose own \<open>timeout\<close> argument is the one passed to \<open>session.get\<close>.
\<close>

theorem make_session_ignores_timeout:
  "make_session w retries backoff t1 = make_session w retries backoff t2 \<and>
   fetch_url get (make_session w retries backoff t1) url timeout
     = fetch_url get (make_session w retries backoff t2) url timeout"
  by (simp add: make_session_def)

theorem make_session_ignores_timeout_witness:
  "make_session demo_world 3 (3 / 10) 10 = make_session demo_world 3 (3 / 10) 60"
  using make_session_ignores_timeout [of demo_world 3 "3 / 10" 10 60] by simp

section \<open>The pipeline\<close>

lemma pool_step_futures: "pool_step mw p p' \<Longrightarrow> pool_futures p' = pool_futures p"
  by (induction rule: pool_step.induct) (simp_all add: pool_futures_def)

lemma pool_steps_futures: "(pool_step mw)\<^sup>*\<^sup>* p p' \<Longrightarrow> pool_futures p' = pool_futures p"
  by (induction rule: rtranclp_induct) (simp_all add: pool_step_futures)

lemma pool_run_mset: "pool_run mw fs order \<Longrightarrow> mset order = mset fs"
proof -
  assume "pool_run mw fs order"
  then obtain p where steps: "(pool_step mw)\<^sup>*\<^sup>* \<lparr>queued = fs, running = [], completed = []\<rparr> p"
    and idle: "pool_idle p" and ord: "completed p = order"
    unfolding pool_run_def by blast
  from pool_steps_futures [OF steps] idle ord show ?thesis
    by (simp add: pool_futures_def pool_idle_def)
qed

lemma pool_step_decreases:
  "pool_step mw p p' \<Longrightarrow>
   2 * length (queued p') + length (running p') < 2 * length (queued p) + length (running p)"
  by (induction rule: pool_step.induct) simp_all

lemma pool_step_progress:
  assumes "0 < mw" and "\<not> pool_idle p"
  shows "\<exists>p'. pool_step mw p p'"
proof (cases "running p")
  case Nil
  with assms(2) obtain f q where q: "queued p = f # q"
    by (cases "queued p") (auto simp: pool_idle_def)
  have "length (running p) < mw" using Nil assms(1) by simp
  from pool_step.start [OF q this] show ?thesis by blast
next
  case (Cons f ys)
  then have "running p = [] @ f # ys" by simp
  from pool_step.complete [OF this] show ?thesis by blast
qed

lemma pool_sequential:
  assumes "0 < mw"
  shows "(pool_step mw)\<^sup>*\<^sup>* \<lparr>queued = fs, running = [], completed = cs\<rparr>
           \<lparr>queued = [], running = [], completed = cs @ fs\<rparr>"
proof (induction fs arbitrary: cs)
  case Nil
  show ?case by simp
next
  case (Cons f fs)
  have "pool_step mw \<lparr>queued = f # fs, running = [], completed = cs\<rparr>
          \<lparr>queued = fs, running = [] @ [f], completed = cs\<rparr>"
    using pool_step.start [of "\<lparr>queued = f # fs, running = [], completed = cs\<rparr>" f fs mw] assms
    by simp
  moreover have "pool_step mw \<lparr>queued = fs, running = [] @ [f], completed = cs\<rparr>
          \<lparr>queued = fs, running = [], completed = cs @ [f]\<rparr>"
    using pool_step.complete [of "\<lparr>queued = fs, running = [] @ [f], completed = cs\<rparr>" "[]" f "[]" mw]
    by simp
  moreover have "(pool_step mw)\<^sup>*\<^sup>* \<lparr>queued = fs, running = [], completed = cs @ [f]\<rparr>
          \<lparr>queued = [], running = [], completed = (cs @ [f]) @ fs\<rparr>"
    by (rule Cons.IH)
  ultimately show ?case by (simp add: converse_rtranclp_into_rtranclp)
qed

lemma pool_run_exists: "0 < mw \<Longrightarrow> pool_run mw fs fs"
  unfolding pool_run_def using pool_sequential [of mw fs "[]"]
  by (rule_tac x = "\<lparr>queued = [], running = [], completed = fs\<rparr>" in exI) (simp add: pool_idle_def)

lemma fetch_url_url: "fetch_url get s url timeout = Inr d \<Longrightarrow> dict_get d ''url'' = Some (PStr url)"
  by (auto simp: fetch_url_def fetch_body_def dict_get_def Let_def split: sum.splits)

lemma collect_results:
  "\<exists>results. collect (map (future_result w s timeout) order) = Inr results
      \<and> map Inr results = map (future_result w s timeout) order"
proof (induction order)
  case Nil
  show ?case by simp
next
  case (Cons f order)
  then obtain results where r: "collect (map (future_result w s timeout) order) = Inr results"
    and m: "map Inr results = map (future_result w s timeout) order" by blast
  obtain d where d: "future_result w s timeout f = Inr d"
    by (metis fetch_url_total future_result_def)
  show ?case using r m d by simp
qed

lemma results_urls:
  "map Inr results = map (future_result w s timeout) order \<Longrightarrow>
   map (\<lambda>d. dict_get d ''url'') results = map (\<lambda>f. Some (PStr (snd f))) order"
proof (induction order arbitrary: results)
  case Nil
  then show ?case by simp
next
  case (Cons f order)
  then obtain d ds where res: "results = d # ds" by (cases results) auto
  with Cons.prems have d: "future_result w s timeout f = Inr d"
    and ds: "map Inr ds = map (future_result w s timeout) order" by auto
  from d have "dict_get d ''url'' = Some (PStr (snd f))"
    unfolding future_result_def by (rule fetch_url_url)
  with Cons.IH [OF ds] res show ?case by simp
qed

lemma submit_all_urls: "map snd (submit_all urls) = urls"
  by (simp add: submit_all_def)

text \<open>
  Claim C1. For every well-formed sitemap whose \<open>loc\<close> elements yield N URLs and every
  concurrency level of at least 1, every report \<open>run_checker\<close> returns has exactly N
  entries in \<open>results\<close>, one per URL (also for a repeated URL), and \<open>count\<close> N; a run
  ends without a report only when the output file cannot be written, and with a
  writable output file a report is returned.
\<close>

theorem run_checker_one_result_per_url:
  assumes parse: "parse_sitemap w sitemap = Inr urls" and conc: "1 \<le> concurrency"
  shows "(\<forall>out. run_checker w sitemap output concurrency timeout out \<longrightarrow>
            (out = Inl (PyExc OSError output) \<and> \<not> writable w output) \<or>
            (\<exists>rep fs results. out = Inr (rep, fs)
               \<and> dict_get rep ''results'' = Some (PList results)
               \<and> length results = length urls
               \<and> dict_get rep ''count'' = Some (PInt (int (length urls)))
               \<and> mset (map (\<lambda>d. dict_get d ''url'') results) = mset (map (\<lambda>u. Some (PStr u)) urls)
               \<and> mset (map Inr results)
                   = mset (map (future_result w (make_session w 3 (3 / 10) 10) timeout) (submit_all urls))))
       \<and> (writable w output \<longrightarrow> (\<exists>rep fs. run_checker w sitemap output concurrency timeout (Inr (rep, fs))))"
proof (intro conjI allI impI)
  fix out
  assume run: "run_checker w sitemap output concurrency timeout out"
  let ?s = "make_session w 3 (3 / 10) 10"
  have good: "dict_get rep ''results'' = Some (PList results)
               \<and> length results = length urls
               \<and> dict_get rep ''count'' = Some (PInt (int (length urls)))
               \<and> mset (map (\<lambda>d. dict_get d ''url'') results) = mset (map (\<lambda>u. Some (PStr u)) urls)
               \<and> mset (map Inr results) = mset (map (future_result w ?s timeout) (submit_all urls))"
    if run': "pool_run (nat concurrency) (submit_all urls) order"
      and col: "collect (map (future_result w ?s timeout) order) = Inr results"
      and rep: "rep = PDict [(''sitemap'', PStr sitemap), (''count'', PInt (int (length urls))),
                  (''results'', PList results)]"
    for order results rep
  proof -
    from collect_results [of w ?s timeout order] col
    have m: "map Inr results = map (future_result w ?s timeout) order" by simp
    have perm: "mset order = mset (submit_all urls)" using run' by (rule pool_run_mset)
    have len: "length results = length urls"
    proof -
      have "length results = length order" using m by (metis length_map)
      also have "\<dots> = length (submit_all urls)" using perm by (metis size_mset)
      also have "\<dots> = length urls" by (simp add: submit_all_def)
      finally show ?thesis .
    qed
    have urls: "mset (map (\<lambda>d. dict_get d ''url'') results) = mset (map (\<lambda>u. Some (PStr u)) urls)"
    proof -
      have "mset (map (\<lambda>d. dict_get d ''url'') results) = mset (map (\<lambda>f. Some (PStr (snd f))) order)"
        using results_urls [OF m] by simp
      also have "\<dots> = image_mset (\<lambda>f. Some (PStr (snd f))) (mset (submit_all urls))"
        using perm by (metis mset_map)
      also have "\<dots> = mset (map (\<lambda>u. Some (PStr u)) (map snd (submit_all urls)))"
        by (simp add: comp_def)
      finally show ?thesis by (simp only: submit_all_urls)
    qed
    have res: "mset (map Inr results) = mset (map (future_result w ?s timeout) (submit_all urls))"
      using m perm by (metis mset_map)
    show ?thesis using len urls res by (simp add: rep dict_get_def)
  qed
  from run parse conc
  show "(out = Inl (PyExc OSError output) \<and> \<not> writable w output) \<or>
        (\<exists>rep fs results. out = Inr (rep, fs)
               \<and> dict_get rep ''results'' = Some (PList results)
               \<and> length results = length urls
               \<and> dict_get rep ''count'' = Some (PInt (int (length urls)))
               \<and> mset (map (\<lambda>d. dict_get d ''url'') results) = mset (map (\<lambda>u. Some (PStr u)) urls)
               \<and> mset (map Inr results) = mset (map (future_result w ?s timeout) (submit_all urls)))"
  proof (cases rule: run_checker.cases)
    case (sitemap_error e)
    then show ?thesis using parse by simp
  next
    case (pool_error urls')
    then show ?thesis using conc by simp
  next
    case (result_error urls' order e)
    then show ?thesis using collect_results [of w ?s timeout order] by auto
  next
    case (write_error urls' order results)
    then show ?thesis by simp
  next
    case (report urls' order results rep)
    then have "urls' = urls" using parse by simp
    with report good [of order results rep] show ?thesis by blast
  qed
next
  assume wr: "writable w output"
  let ?s = "make_session w 3 (3 / 10) 10"
  have pos: "0 < concurrency" using conc by simp
  then have "pool_run (nat concurrency) (submit_all urls) (submit_all urls)"
    by (intro pool_run_exists) simp
  moreover obtain results where "collect (map (future_result w ?s timeout) (submit_all urls)) = Inr results"
    using collect_results by blast
  ultimately show "\<exists>rep fs. run_checker w sitemap output concurrency timeout (Inr (rep, fs))"
    using run_checker.report [OF parse pos _ _ wr refl] by blast
qed

lemma demo_parse:
  "parse_sitemap demo_world ''sitemap.xml'' = Inr [''http://a.example/'', ''http://b.example/'', ''http://a.example/'']"
  by code_simp

theorem run_checker_one_result_per_url_witness:
  "\<exists>rep fs. run_checker demo_world ''sitemap.xml'' ''judol_report.json'' 2 10 (Inr (rep, fs))"
proof -
  have w: "writable demo_world ''judol_report.json''" by (simp add: demo_world_def)
  have c: "(1::int) \<le> 2" by simp
  from run_checker_one_result_per_url [OF demo_parse c, of "''judol_report.json''" 10] w
  show ?thesis by blast
qed








section \<open>The sitemap reader\<close>

lemma py_strip_empty_iff: "py_strip t = [] \<longleftrightarrow> list_all py_isspace t"
proof
  assume "list_all py_isspace t"
  then have dw: "dropWhile py_isspace t = []" by (simp add: list_all_iff)
  show "py_strip t = []" unfolding py_strip_def dw by simp
next
  assume e: "py_strip t = []"
  show "list_all py_isspace t"
  proof (rule ccontr)
    assume "\<not> list_all py_isspace t"
    then have ne: "dropWhile py_isspace t \<noteq> []" by (simp add: list_all_iff)
    then have "\<not> py_isspace (hd (dropWhile py_isspace t))" by (rule hd_dropWhile)
    moreover have "hd (dropWhile py_isspace t) \<in> set (dropWhile py_isspace t)" using ne by simp
    moreover have "\<forall>x \<in> set (dropWhile py_isspace t). py_isspace x"
      using e by (simp add: py_strip_def dropWhile_eq_Nil_conv)
    ultimately show False by blast
  qed
qed

lemma parse_sitemap_urls:
  assumes "CHR 0x00 \<notin> set path" and "files w path = Some doc" and "xml_parser w doc = Tree root_el"
  shows "parse_sitemap w path =
           Inr (map py_strip
                  (concat (map (\<lambda>e. case elem_text e of None \<Rightarrow> [] | Some t \<Rightarrow> if t = [] then [] else [t])
                     (findall_descendants root_el
                        (if root_namespace (elem_tag root_el) \<noteq> []
                         then ''{'' @ root_namespace (elem_tag root_el) @ ''}loc'' else ''loc'')))))"
proof -
  have "List.map_filter loc_url es =
          map py_strip (concat (map (\<lambda>e. case elem_text e of None \<Rightarrow> [] | Some t \<Rightarrow> if t = [] then [] else [t]) es))"
    for es
    by (induction es) (auto split: option.splits)
  then show ?thesis using assms by (simp add: parse_sitemap_def ET_parse_def Let_def)
qed

text \<open>The empty string is returned exactly for a \<open>loc\<close> element whose text is
  whitespace and nothing else.\<close>

lemma parse_sitemap_empty_url:
  assumes "CHR 0x00 \<notin> set path" and "files w path = Some doc" and "xml_parser w doc = Tree root_el"
    and "parse_sitemap w path = Inr urls"
  shows "[] \<in> set urls \<longleftrightarrow>
           (\<exists>e t. e \<in> set (findall_descendants root_el
                        (if root_namespace (elem_tag root_el) \<noteq> []
                         then ''{'' @ root_namespace (elem_tag root_el) @ ''}loc'' else ''loc''))
                  \<and> elem_text e = Some t \<and> t \<noteq> [] \<and> list_all py_isspace t)"
proof -
  let ?locs = "findall_descendants root_el
                        (if root_namespace (elem_tag root_el) \<noteq> []
                         then ''{'' @ root_namespace (elem_tag root_el) @ ''}loc'' else ''loc'')"
  have "urls = List.map_filter loc_url ?locs"
    using assms by (auto simp: parse_sitemap_def ET_parse_def Let_def)
  then have "[] \<in> set urls \<longleftrightarrow> (\<exists>e \<in> set ?locs. loc_url e = Some [])"
    by (simp only: List.map_filter_def) force
  also have "\<dots> \<longleftrightarrow> (\<exists>e t. e \<in> set ?locs \<and> elem_text e = Some t \<and> t \<noteq> [] \<and> list_all py_isspace t)"
    by (auto simp: py_strip_empty_iff split: option.splits if_splits)
  finally show ?thesis .
qed

text \<open>
  Claim C6. For every well-formed sitemap, \<open>parse_sitemap\<close> returns the trimmed texts of
  the \<open>loc\<close> elements in document order and skips the elements whose text is empty or
  missing, so that no empty string is returned. The code tests the text before it trims
  it: a \<open>loc\<close> element that holds only whitespace passes the test, and its trimmed text,
  the empty string, is returned, as on this sitemap.
\<close>

theorem parse_sitemap_blank_loc: "parse_sitemap demo_world ''blank.xml'' = Inr ['''']"
  by code_simp

text \<open>
  Claim C7, as stated: \<open>parse_sitemap\<close> fails with \<open>ParseError\<close> exactly when the document
  is not well-formed or the file cannot be opened. A file that cannot be opened makes it
  fail with the \<open>OSError\<close> of opening it, not with \<open>ParseError\<close>.
\<close>

theorem parse_sitemap_missing_file:
  "files demo_world ''missing.xml'' = None \<and>
   parse_sitemap demo_world ''missing.xml'' = Inl (PyExc OSError ''missing.xml'')"
  by (simp add: demo_world_def parse_sitemap_def ET_parse_def)

text \<open>
  Claim C7, amended. \<open>parse_sitemap\<close> handles no exception and adds none: it raises what
  \<open>ET.parse(path)\<close> raises, unchanged, and returns a URL list without raising exactly
  when the file is read and the parser builds its tree. It fails with \<open>ParseError\<close>
  when the file is read and its markup is not well-formed; with the \<open>OSError\<close> of
  opening it, not \<open>ParseError\<close>, when the file cannot be opened; with a \<open>ValueError\<close> when
  the path holds a NUL character; and with whatever else the parser raises, as the
  \<open>ValueError\<close> or \<open>LookupError\<close> for a document in an encoding it does not support.
\<close>

theorem parse_sitemap_failures:
  "(\<forall>e. parse_sitemap w path = Inl e \<longleftrightarrow> ET_parse w path = Inl e)
   \<and> ((\<exists>urls. parse_sitemap w path = Inr urls)
        \<longleftrightarrow> CHR 0x00 \<notin> set path
            \<and> (\<exists>doc root_el. files w path = Some doc \<and> xml_parser w doc = Tree root_el))
   \<and> (\<forall>doc msg. CHR 0x00 \<notin> set path \<and> files w path = Some doc \<and> xml_parser w doc = NotWellFormed msg
          \<longrightarrow> parse_sitemap w path = Inl (PyExc ParseError msg))
   \<and> (CHR 0x00 \<notin> set path \<and> files w path = None
          \<longrightarrow> parse_sitemap w path = Inl (PyExc OSError path))
   \<and> (CHR 0x00 \<in> set path
          \<longrightarrow> parse_sitemap w path = Inl (PyExc ValueError ''embedded null byte''))
   \<and> (\<forall>doc e. CHR 0x00 \<notin> set path \<and> files w path = Some doc \<and> xml_parser w doc = ParserRaises e
          \<longrightarrow> parse_sitemap w path = Inl e)"
  by (auto simp: parse_sitemap_def ET_parse_def Let_def
           split: option.splits sum.splits parser_result.splits)

theorem parse_sitemap_failures_witness:
  "parse_sitemap demo_world ''broken.xml'' = Inl (PyExc ParseError ''no element found: line 1, column 8'')
   \<and> parse_sitemap demo_world ''sjis.xml''
       = Inl (PyExc ValueError ''multi-byte encodings are not supported'')"
proof -
  have n: "CHR 0x00 \<notin> set ''broken.xml''" "CHR 0x00 \<notin> set ''sjis.xml''" by simp_all
  have b: "files demo_world ''broken.xml'' = Some ''<urlset>''"
    "xml_parser demo_world ''<urlset>'' = NotWellFormed ''no element found: line 1, column 8''"
    by (simp_all add: demo_world_def demo_parser_def demo_document_def blank_document_def
          sjis_document_def)
  have j: "files demo_world ''sjis.xml'' = Some sjis_document"
    "xml_parser demo_world sjis_document
       = ParserRaises (PyExc ValueError ''multi-byte encodings are not supported'')"
    by (simp_all add: demo_world_def demo_parser_def demo_document_def blank_document_def
          sjis_document_def)
  from parse_sitemap_failures [of demo_world "''broken.xml''"] n(1) b
  have "parse_sitemap demo_world ''broken.xml'' = Inl (PyExc ParseError ''no element found: line 1, column 8'')"
    by blast
  moreover from parse_sitemap_failures [of demo_world "''sjis.xml''"] n(2) j
  have "parse_sitemap demo_world ''sjis.xml''
       = Inl (PyExc ValueError ''multi-byte encodings are not supported'')"
    by blast
  ultimately show ?thesis by simp
qed

section \<open>The report file\<close>

lemma hex_value_hex_digit: "d < 16 \<Longrightarrow> hex_value (hex_digit d) = Some d"
  by (auto simp: hex_value_def hex_digit_def Let_def)

lemma hex4_control:
  assumes "n < 32"
  shows "hex4 CHR ''0'' CHR ''0'' (hex_digit (n div 16)) (hex_digit (n mod 16)) = Some n"
proof -
  have z: "hex_value CHR ''0'' = Some 0" by (simp add: hex_value_def)
  have a: "hex_value (hex_digit (n div 16)) = Some (n div 16)"
    using assms by (intro hex_value_hex_digit) simp
  have b: "hex_value (hex_digit (n mod 16)) = Some (n mod 16)"
    by (intro hex_value_hex_digit) simp
  show ?thesis by (simp add: hex4_def z a b)
qed

lemma scanstring_escape_char: "scanstring (escape_char c @ s) = cons_fst c (scanstring s)"
proof -
  consider (quote) "c = CHR 0x22" | (bs) "c = CHR 0x5C" | (nl) "c = CHR 0x0A" | (cr) "c = CHR 0x0D"
    | (tab) "c = CHR 0x09" | (b) "c = CHR 0x08" | (f) "c = CHR 0x0C"
    | (ctl) "c \<noteq> CHR 0x22" "c \<noteq> CHR 0x5C" "c \<noteq> CHR 0x0A" "c \<noteq> CHR 0x0D" "c \<noteq> CHR 0x09"
        "c \<noteq> CHR 0x08" "c \<noteq> CHR 0x0C" "(of_char c :: nat) < 32"
    | (plain) "c \<noteq> CHR 0x22" "c \<noteq> CHR 0x5C" "\<not> (of_char c :: nat) < 32"
        "c \<noteq> CHR 0x0A" "c \<noteq> CHR 0x0D" "c \<noteq> CHR 0x09" "c \<noteq> CHR 0x08" "c \<noteq> CHR 0x0C"
    by blast
  then show ?thesis
  proof cases
    case ctl
    have "hex4 CHR ''0'' CHR ''0'' (hex_digit ((of_char c :: nat) div 16)) (hex_digit ((of_char c :: nat) mod 16))
            = Some (of_char c)"
      using ctl(8) by (rule hex4_control)
    moreover have "(of_char c :: nat) < 256" using ctl(8) by simp
    ultimately show ?thesis using ctl by (simp add: escape_char_def)
  qed (simp_all add: escape_char_def unescape_def)
qed

lemma scanstring_escaped:
  "scanstring (concat (map escape_char s) @ CHR 0x22 # rest) = Some (s, rest)"
  by (induction s) (simp_all add: scanstring_escape_char cons_fst_def)

lemma scanstring_encode_basestring:
  "encode_basestring s @ rest = CHR 0x22 # concat (map escape_char s) @ CHR 0x22 # rest"
  by (simp add: encode_basestring_def)

lemma digits_nonempty: "digits n \<noteq> []"
  by (subst digits.simps) simp

lemma is_digit_char_of: "(d::nat) < 10 \<Longrightarrow> is_digit (char_of (48 + d))"
  by (simp add: is_digit_def)

lemma digits_all_digit: "list_all is_digit (digits n)"
proof (induction n rule: digits.induct)
  case (1 n)
  show ?case
  proof (cases "n < 10")
    case True
    then show ?thesis by (subst digits.simps) (simp add: is_digit_char_of)
  next
    case False
    have "is_digit (char_of (48 + n mod 10))" by (rule is_digit_char_of) simp
    with False 1 show ?thesis by (subst digits.simps) simp
  qed
qed

lemma digits_value_snoc:
  "digits_value (ds @ [d]) = 10 * digits_value ds + ((of_char d :: nat) - 48)"
  by (simp add: digits_value_def)

lemma digits_value_digits: "digits_value (digits n) = n"
proof (induction n rule: digits.induct)
  case (1 n)
  show ?case
  proof (cases "n < 10")
    case True
    then show ?thesis by (subst digits.simps) (simp add: digits_value_def)
  next
    case False
    have "(of_char (char_of (48 + n mod 10) :: char) :: nat) = 48 + n mod 10"
      by (simp add: mod_less)
    with False 1 show ?thesis by (subst digits.simps) (simp add: digits_value_snoc)
  qed
qed

lemma digits_hd_zero: "hd (digits n) = CHR ''0'' \<Longrightarrow> n = 0"
proof (induction n rule: digits.induct)
  case (1 n)
  show ?case
  proof (cases "n < 10")
    case True
    with 1(2) have "char_of (48 + n) = CHR ''0''" by (subst (asm) digits.simps) simp
    then have "(of_char (char_of (48 + n) :: char) :: nat) = of_char CHR ''0''" by simp
    with True show ?thesis by simp
  next
    case False
    with 1(2) have "hd (digits (n div 10)) = CHR ''0''"
      by (subst (asm) digits.simps) (simp add: digits_nonempty)
    with 1(1) False have "n div 10 = 0" by simp
    with False show ?thesis by simp
  qed
qed

lemma digits_zero: "digits 0 = ''0''"
  by code_simp

lemma takeWhile_digits:
  assumes "value_end rest"
  shows "takeWhile is_digit (digits n @ rest) = digits n"
    and "dropWhile is_digit (digits n @ rest) = rest"
proof -
  have all: "\<forall>x \<in> set (digits n). is_digit x" using digits_all_digit by (simp add: list_all_iff)
  have r: "takeWhile is_digit rest = []" "dropWhile is_digit rest = rest"
    using assms by (cases rest; simp add: value_end_def)+
  show "takeWhile is_digit (digits n @ rest) = digits n" using all r by (simp add: takeWhile_append2)
  show "dropWhile is_digit (digits n @ rest) = rest" using all r by (simp add: dropWhile_append2)
qed

lemma int_part_digits:
  assumes "value_end rest"
  shows "int_part (digits n @ rest) = Some (digits n, rest)"
proof (cases "n = 0")
  case True
  then show ?thesis by (simp add: digits_zero int_part_def)
next
  case False
  obtain c cs where d: "digits n = c # cs" using digits_nonempty by (cases "digits n") auto
  have "c \<noteq> CHR ''0''" using digits_hd_zero [of n] d False by auto
  moreover have "is_digit c" using digits_all_digit [of n] d by simp
  moreover have "takeWhile is_digit (c # cs @ rest) = c # cs" "dropWhile is_digit (c # cs @ rest) = rest"
    using takeWhile_digits [OF assms, of n] d by simp_all
  ultimately show ?thesis using d by (simp add: int_part_def)
qed

lemma float_follows_value_end: "value_end rest \<Longrightarrow> \<not> float_follows rest"
  by (cases rest) (auto simp: value_end_def float_follows_def)

lemma digits_first:
  "\<exists>c cs. digits n = c # cs \<and> is_digit c"
  using digits_nonempty [of n] digits_all_digit [of n] by (cases "digits n") auto

lemma scan_number_int_repr:
  assumes "value_end rest"
  shows "scan_number (int_repr i @ rest) = Some (PInt i, rest)"
proof (cases "i < 0")
  case True
  then show ?thesis
    using int_part_digits [OF assms] float_follows_value_end [OF assms]
    by (simp add: scan_number_def int_repr_def digits_value_digits)
next
  case False
  obtain c cs where d: "digits (nat i) = c # cs" and c: "is_digit c" using digits_first by blast
  have "c \<noteq> CHR ''-''" using c by (auto simp: is_digit_def)
  then have "\<not> py_startswith (digits (nat i) @ rest) ''-''" using d by simp
  then show ?thesis
    using False int_part_digits [OF assms] float_follows_value_end [OF assms]
    by (simp add: scan_number_def int_repr_def digits_value_digits)
qed

lemma skip_ws_newline_indent: "skip_ws (newline_indent k @ s) = skip_ws s"
proof -
  have "\<forall>x \<in> set (newline_indent k). json_ws x"
    by (auto simp: newline_indent_def json_ws_def)
  then show ?thesis unfolding skip_ws_def by (simp add: dropWhile_append2)
qed

lemma skip_ws_nonws: "\<not> json_ws c \<Longrightarrow> skip_ws (c # s) = c # s"
  by (simp add: skip_ws_def)

lemma value_end_newline_indent: "value_end (newline_indent k @ s)"
  by (simp add: value_end_def newline_indent_def is_digit_def)

lemma value_end_comma: "value_end (CHR '','' # s)"
  by (simp add: value_end_def is_digit_def)

lemma value_end_iterencode_list: "value_end (iterencode_list lvl xs @ newline_indent k @ s)"
  by (cases xs) (simp_all add: value_end_newline_indent value_end_comma)

lemma value_end_iterencode_dict: "value_end (iterencode_dict lvl kvs @ newline_indent k @ s)"
  by (cases kvs) (auto simp: value_end_newline_indent value_end_comma)

lemma int_repr_first: "\<exists>c cs. int_repr i = c # cs \<and> (c = CHR ''-'' \<or> is_digit c)"
  using digits_first [of "nat i"] by (auto simp: int_repr_def)

lemma is_digit_not_special:
  assumes "c = CHR ''-'' \<or> is_digit c"
  shows "\<not> json_ws c" "c \<noteq> CHR '']''" "c \<noteq> CHR 0x22" "c \<noteq> CHR ''{''" "c \<noteq> CHR ''[''"
    "c \<noteq> CHR ''n''" "c \<noteq> CHR ''t''" "c \<noteq> CHR ''f''"
  using assms by (auto simp: is_digit_def json_ws_def)

lemma iterencode_first: "\<exists>c cs. iterencode lvl v = c # cs \<and> \<not> json_ws c \<and> c \<noteq> CHR '']''"
proof (cases v)
  case (PInt i)
  obtain c cs where "int_repr i = c # cs" "c = CHR ''-'' \<or> is_digit c"
    using int_repr_first by blast
  then show ?thesis using PInt is_digit_not_special(1,2) [of c] by simp
next
  case (PList xs)
  then show ?thesis by (cases xs) (simp_all add: json_ws_def)
next
  case (PDict kvs)
  then show ?thesis by (cases kvs) (auto simp: json_ws_def)
qed (simp_all add: json_ws_def encode_basestring_def)

lemma skip_ws_iterencode: "skip_ws (iterencode lvl v @ s) = iterencode lvl v @ s"
  using iterencode_first [of lvl v] by (auto simp: skip_ws_nonws)

lemma dict_of_pairs_distinct:
  assumes "distinct (map fst kvs)"
  shows "dict_of_pairs kvs = kvs"
proof -
  have "distinct (map fst (d @ kvs)) \<Longrightarrow>
        foldl (\<lambda>d (k, v). AList.update k v d) d kvs = d @ kvs" for d
  proof (induction kvs arbitrary: d)
    case Nil
    show ?case by simp
  next
    case (Cons kv kvs)
    obtain k v where kv: "kv = (k, v)" by (cases kv)
    have "k \<notin> fst ` set d" using Cons.prems kv by auto
    then have "AList.update k v d = d @ [(k, v)]"
      by (induction d) auto
    moreover have "distinct (map fst ((d @ [(k, v)]) @ kvs))" using Cons.prems kv by simp
    ultimately show ?case using Cons.IH [of "d @ [(k, v)]"] kv by simp
  qed
  from this [of "[]"] assms show ?thesis by (simp add: dict_of_pairs_def)
qed

lemma scan_atoms:
  "scan_once (Suc m) (''null'' @ rest) = Some (PNone, rest)"
  "scan_once (Suc m) (''true'' @ rest) = Some (PBool True, rest)"
  "scan_once (Suc m) (''false'' @ rest) = Some (PBool False, rest)"
  by simp_all

lemma scan_int:
  assumes "value_end rest"
  shows "scan_once (Suc m) (int_repr i @ rest) = Some (PInt i, rest)"
proof -
  obtain c cs where r: "int_repr i = c # cs" and c: "c = CHR ''-'' \<or> is_digit c"
    using int_repr_first by blast
  have "scan_once (Suc m) (c # cs @ rest) = scan_number (c # cs @ rest)"
    using is_digit_not_special [OF c] by simp
  then show ?thesis using r scan_number_int_repr [OF assms, of i] by simp
qed

lemma scan_str: "scan_once (Suc m) (encode_basestring s @ rest) = Some (PStr s, rest)"
  by (simp add: scanstring_encode_basestring scanstring_escaped)

lemma array_items_end:
  assumes "scan_once n s0 = Some (x0, newline_indent k @ CHR '']'' # rest)"
  shows "array_items (Suc n) s0 = Some ([x0], rest)"
  using assms by (simp add: skip_ws_newline_indent skip_ws_nonws json_ws_def)

lemma array_items_more:
  assumes "scan_once n s0 = Some (x0, CHR '','' # newline_indent k @ s1)"
    and "array_items n (skip_ws s1) = Some (xs, rest)"
  shows "array_items (Suc n) s0 = Some (x0 # xs, rest)"
  using assms by (simp add: skip_ws_newline_indent skip_ws_nonws json_ws_def cons_fst_def)

lemma object_items_end:
  assumes "scanstring s0 = Some (key, r)" and "skip_ws r = CHR '':'' # cs"
    and "scan_once n (skip_ws cs) = Some (v0, newline_indent k @ CHR ''}'' # rest)"
  shows "object_items (Suc n) s0 = Some ([(key, v0)], rest)"
  using assms by (simp add: skip_ws_newline_indent skip_ws_nonws json_ws_def)

lemma object_items_more:
  assumes "scanstring s0 = Some (key, r)" and "skip_ws r = CHR '':'' # cs"
    and "scan_once n (skip_ws cs) = Some (v0, CHR '','' # newline_indent k @ CHR 0x22 # s1)"
    and "object_items n s1 = Some (kvs, rest)"
  shows "object_items (Suc n) s0 = Some ((key, v0) # kvs, rest)"
  using assms by (simp add: skip_ws_newline_indent skip_ws_nonws json_ws_def cons_fst_def)

lemma scan_array_open:
  assumes "array_items n (iterencode l x @ s1) = Some (xs, rest)"
  shows "scan_once (Suc n) (CHR ''['' # newline_indent k @ iterencode l x @ s1) = Some (PList xs, rest)"
proof -
  obtain c cs where e: "iterencode l x = c # cs" and c: "\<not> json_ws c" "c \<noteq> CHR '']''"
    using iterencode_first by blast
  have "skip_ws (newline_indent k @ iterencode l x @ s1) = c # cs @ s1"
    using e c by (simp add: skip_ws_newline_indent skip_ws_nonws)
  then show ?thesis using assms e c by simp
qed

lemma scan_object_open:
  assumes "object_items n s1 = Some (kvs, rest)"
  shows "scan_once (Suc n) (CHR ''{'' # newline_indent k @ CHR 0x22 # s1)
           = Some (PDict (dict_of_pairs kvs), rest)"
proof -
  have "skip_ws (newline_indent k @ CHR 0x22 # s1) = CHR 0x22 # s1"
    by (simp add: skip_ws_newline_indent skip_ws_nonws json_ws_def)
  then show ?thesis using assms by simp
qed

lemma scanstring_key:
  "scanstring (concat (map escape_char key) @ CHR 0x22 # CHR '':'' # CHR '' '' # s) =
     Some (key, CHR '':'' # CHR '' '' # s)"
  by (rule scanstring_escaped)

lemma skip_ws_colon: "skip_ws (CHR '':'' # CHR '' '' # s) = CHR '':'' # CHR '' '' # s"
  by (simp add: skip_ws_nonws json_ws_def)

lemma skip_ws_space: "skip_ws (CHR '' '' # s) = skip_ws s"
  by (simp add: skip_ws_def json_ws_def)

lemma scan_roundtrip:
  "\<And>n rest. scan_fuel v \<le> n \<Longrightarrow> value_end rest \<Longrightarrow> distinct_keys v \<Longrightarrow>
     scan_once n (iterencode lvl v @ rest) = Some (v, rest)"
  "\<And>n x0 s0 rest k.
     scan_once n s0 = Some (x0, iterencode_list lvl xs @ newline_indent k @ CHR '']'' # rest) \<Longrightarrow>
     scan_fuel_list xs \<le> n \<Longrightarrow> distinct_keys_list xs \<Longrightarrow>
     array_items (Suc n) s0 = Some (x0 # xs, rest)"
  "\<And>n key v0 s0 r cs rest k.
     scanstring s0 = Some (key, r) \<Longrightarrow> skip_ws r = CHR '':'' # cs \<Longrightarrow>
     scan_once n (skip_ws cs) = Some (v0, iterencode_dict lvl kvs @ newline_indent k @ CHR ''}'' # rest) \<Longrightarrow>
     scan_fuel_dict kvs \<le> n \<Longrightarrow> distinct_keys_dict kvs \<Longrightarrow>
     object_items (Suc n) s0 = Some ((key, v0) # kvs, rest)"
proof (induction lvl v and lvl xs and lvl kvs rule: iterencode_iterencode_list_iterencode_dict.induct)
  case (1 lvl)
  then obtain m where "n = Suc m" by (cases n) auto
  then show ?case by (simp add: scan_atoms)
next
  case (2 lvl b)
  then obtain m where "n = Suc m" by (cases n) auto
  then show ?case by (cases b) (simp_all add: scan_atoms)
next
  case (3 lvl i)
  then obtain m where "n = Suc m" by (cases n) auto
  then show ?case using scan_int [OF 3(2)] by simp
next
  case (4 lvl s)
  then obtain m where "n = Suc m" by (cases n) auto
  then show ?case using scan_str by simp
next
  case (5 lvl)
  then obtain m where "n = Suc m" by (cases n) auto
  then show ?case by (simp add: skip_ws_nonws json_ws_def)
next
  case (6 lvl x xs)
  from 6(3) obtain m where n: "n = Suc (Suc m)" and mx: "scan_fuel x \<le> m"
    and ml: "scan_fuel_list xs \<le> m"
    by (cases n; cases "n - 1") auto
  let ?tail = "iterencode_list (Suc lvl) xs @ newline_indent lvl @ CHR '']'' # rest"
  have "value_end ?tail" by (rule value_end_iterencode_list)
  moreover have "distinct_keys x" "distinct_keys_list xs" using 6(5) by simp_all
  ultimately have x: "scan_once m (iterencode (Suc lvl) x @ ?tail) = Some (x, ?tail)"
    and dl: "distinct_keys_list xs"
    using 6(1) [OF mx] by simp_all
  have "array_items (Suc m) (iterencode (Suc lvl) x @ ?tail) = Some (x # xs, rest)"
    using 6(2) [OF x ml dl] .
  from scan_array_open [OF this, of "Suc lvl"] show ?case by (simp add: n)
next
  case (7 lvl)
  then obtain m where "n = Suc m" by (cases n) auto
  then show ?case by (simp add: skip_ws_nonws json_ws_def)
next
  case (8 lvl k v kvs)
  from 8(3) obtain m where n: "n = Suc (Suc m)" and mv: "scan_fuel v \<le> m"
    and md: "scan_fuel_dict kvs \<le> m"
    by (cases n; cases "n - 1") auto
  let ?tail = "iterencode_dict (Suc lvl) kvs @ newline_indent lvl @ CHR ''}'' # rest"
  let ?s1 = "concat (map escape_char k) @ CHR 0x22 # CHR '':'' # CHR '' '' # iterencode (Suc lvl) v @ ?tail"
  have ve: "value_end ?tail" by (rule value_end_iterencode_dict)
  have dv: "distinct_keys v" and dd: "distinct_keys_dict kvs"
    and dk: "distinct (map fst ((k, v) # kvs))" using 8(5) by simp_all
  have v: "scan_once m (skip_ws (CHR '' '' # iterencode (Suc lvl) v @ ?tail)) = Some (v, ?tail)"
    using 8(1) [OF mv ve dv] by (simp add: skip_ws_space skip_ws_iterencode)
  have "object_items (Suc m) ?s1 = Some ((k, v) # kvs, rest)"
    using 8(2) [OF scanstring_key skip_ws_colon v md dd] .
  from scan_object_open [OF this, of "Suc lvl"] dict_of_pairs_distinct [OF dk]
  show ?case by (simp add: n encode_basestring_def)
next
  case (9 lvl)
  then show ?case using array_items_end by simp
next
  case (10 lvl x xs)
  from 10(4) obtain m where n: "n = Suc m" and mx: "scan_fuel x \<le> m"
    and ml: "scan_fuel_list xs \<le> m"
    by (cases n) auto
  let ?tail = "iterencode_list lvl xs @ newline_indent k @ CHR '']'' # rest"
  have ve: "value_end ?tail" by (rule value_end_iterencode_list)
  have dx: "distinct_keys x" and dl: "distinct_keys_list xs" using 10(5) by simp_all
  have x: "scan_once m (iterencode lvl x @ ?tail) = Some (x, ?tail)"
    using 10(1) [OF mx ve dx] .
  have "array_items (Suc m) (iterencode lvl x @ ?tail) = Some (x # xs, rest)"
    using 10(2) [OF x ml dl] .
  then have "array_items n (skip_ws (iterencode lvl x @ ?tail)) = Some (x # xs, rest)"
    by (simp add: n skip_ws_iterencode)
  moreover have "scan_once n s0 = Some (x0, CHR '','' # newline_indent lvl @ iterencode lvl x @ ?tail)"
    using 10(3) by simp
  ultimately show ?case by (rule array_items_more [rotated])
next
  case (11 lvl)
  then show ?case using object_items_end by simp
next
  case (12 lvl k' v kvs)
  from 12(6) obtain m where n: "n = Suc m" and mv: "scan_fuel v \<le> m"
    and md: "scan_fuel_dict kvs \<le> m"
    by (cases n) auto
  let ?tail = "iterencode_dict lvl kvs @ newline_indent k @ CHR ''}'' # rest"
  let ?s1 = "concat (map escape_char k') @ CHR 0x22 # CHR '':'' # CHR '' '' # iterencode lvl v @ ?tail"
  have ve: "value_end ?tail" by (rule value_end_iterencode_dict)
  have dv: "distinct_keys v" and dd: "distinct_keys_dict kvs" using 12(7) by simp_all
  have v: "scan_once m (skip_ws (CHR '' '' # iterencode lvl v @ ?tail)) = Some (v, ?tail)"
    using 12(1) [OF mv ve dv] by (simp add: skip_ws_space skip_ws_iterencode)
  have "object_items (Suc m) ?s1 = Some ((k', v) # kvs, rest)"
    using 12(2) [OF scanstring_key skip_ws_colon v md dd] .
  then have o: "object_items n ?s1 = Some ((k', v) # kvs, rest)" by (simp add: n)
  have "scan_once n (skip_ws cs) = Some (v0, CHR '','' # newline_indent lvl @ CHR 0x22 # ?s1)"
    using 12(5) by (simp add: encode_basestring_def)
  from object_items_more [OF 12(3) 12(4) this o] show ?case .
qed

lemma int_repr_nonempty: "int_repr i \<noteq> []"
  using int_repr_first [of i] by auto

lemma scan_fuel_le_length:
  "scan_fuel v \<le> length (iterencode lvl v)"
  "scan_fuel_list xs \<le> length (iterencode_list lvl xs)"
  "scan_fuel_dict kvs \<le> length (iterencode_dict lvl kvs)"
proof (induction lvl v and lvl xs and lvl kvs rule: iterencode_iterencode_list_iterencode_dict.induct)
  case (3 lvl i)
  have "1 \<le> length (int_repr i)" using int_repr_nonempty [of i] by (cases "int_repr i") auto
  then show ?case by simp
qed (simp_all add: encode_basestring_def newline_indent_def)

lemma json_loads_dumps:
  assumes "distinct_keys v"
  shows "json_loads (json_dumps v) = Some v"
proof -
  have "scan_fuel v \<le> 2 * length (iterencode 0 v) + 2"
    using scan_fuel_le_length(1) [of v 0] by simp
  moreover have "value_end []" by (simp add: value_end_def)
  ultimately have "scan_once (2 * length (iterencode 0 v) + 2) (iterencode 0 v @ []) = Some (v, [])"
    using assms by (rule scan_roundtrip(1))
  moreover have "skip_ws (iterencode 0 v) = iterencode 0 v"
    using skip_ws_iterencode [of 0 v "[]"] by simp
  ultimately show ?thesis by (simp add: json_loads_def json_dumps_def skip_ws_def)
qed

lemma fetch_url_distinct_keys: "fetch_url get s url timeout = Inr d \<Longrightarrow> distinct_keys d"
  by (auto simp: fetch_url_def fetch_body_def Let_def split: sum.splits)

lemma results_distinct_keys:
  "map Inr results = map (future_result w s timeout) order \<Longrightarrow> distinct_keys_list results"
proof (induction order arbitrary: results)
  case Nil
  then show ?case by simp
next
  case (Cons f order)
  then obtain d ds where res: "results = d # ds" by (cases results) auto
  with Cons.prems have d: "future_result w s timeout f = Inr d"
    and ds: "map Inr ds = map (future_result w s timeout) order" by auto
  from d have "distinct_keys d" unfolding future_result_def by (rule fetch_url_distinct_keys)
  with Cons.IH [OF ds] res show ?case by simp
qed

lemma escape_char_plain:
  assumes "127 < (of_char c :: nat)"
  shows "escape_char c = [c]"
proof -
  have ne: "c \<noteq> d" if "(of_char d :: nat) \<le> 127" for d
    using that assms by auto
  have "c \<noteq> CHR 0x22" "c \<noteq> CHR 0x5C" "c \<noteq> CHR 0x0A" "c \<noteq> CHR 0x0D" "c \<noteq> CHR 0x09"
    "c \<noteq> CHR 0x08" "c \<noteq> CHR 0x0C"
    by (rule ne, simp)+
  moreover have "\<not> (of_char c :: nat) < 32" using assms by simp
  ultimately show ?thesis unfolding escape_char_def by (simp only: if_False)
qed

lemma encode_basestring_plain:
  assumes "\<forall>c \<in> set s. 127 < (of_char c :: nat)"
  shows "encode_basestring s = CHR 0x22 # s @ [CHR 0x22]"
proof -
  have "concat (map escape_char s) = s" using assms
    by (induction s) (simp_all add: escape_char_plain)
  then show ?thesis by (simp add: encode_basestring_def)
qed

lemma demo_collect:
  "collect (map (future_result demo_world (make_session demo_world 3 (3 / 10) 10) 10)
      (submit_all [''http://a.example/'', ''http://b.example/'', ''http://a.example/'']))
   = Inr [PDict [(''url'', PStr ''http://a.example/''), (''ok'', PBool True), (''status_code'', PInt 200),
                   (''has_judol'', PBool True), (''exact_judol'', PBool True), (''length'', PInt 5)],
            PDict [(''url'', PStr ''http://b.example/''), (''ok'', PBool False),
                   (''error'', PStr ''Connection refused'')],
            PDict [(''url'', PStr ''http://a.example/''), (''ok'', PBool True), (''status_code'', PInt 200),
                   (''has_judol'', PBool True), (''exact_judol'', PBool True), (''length'', PInt 5)]]"
proof -
  have s: "submit_all [''http://a.example/'', ''http://b.example/'', ''http://a.example/'']
          = [(0, ''http://a.example/''), (1, ''http://b.example/''), (2, ''http://a.example/'')]"
    by (simp add: submit_all_def upt_rec)
  have h: "has_judol ''JUDOL''" "exact_judol ''JUDOL''" by code_simp+
  show ?thesis
    by (simp add: s future_result_def fetch_url_def fetch_body_def demo_world_def demo_get_def h)
qed

lemma demo_run:
  "run_checker demo_world ''sitemap.xml'' ''judol_report.json'' 2 10
     (Inr (demo_report, (files demo_world)(''judol_report.json'' \<mapsto> json_dumps demo_report)))"
proof -
  have w: "writable demo_world ''judol_report.json''" by (simp add: demo_world_def)
  have p: "pool_run (nat 2) (submit_all [''http://a.example/'', ''http://b.example/'', ''http://a.example/''])
             (submit_all [''http://a.example/'', ''http://b.example/'', ''http://a.example/''])"
    by (rule pool_run_exists) simp
  have r: "demo_report = PDict [(''sitemap'', PStr ''sitemap.xml''),
      (''count'', PInt (int (length [''http://a.example/'', ''http://b.example/'', ''http://a.example/'']))),
      (''results'', PList [PDict [(''url'', PStr ''http://a.example/''), (''ok'', PBool True), (''status_code'', PInt 200),
                   (''has_judol'', PBool True), (''exact_judol'', PBool True), (''length'', PInt 5)],
            PDict [(''url'', PStr ''http://b.example/''), (''ok'', PBool False),
                   (''error'', PStr ''Connection refused'')],
            PDict [(''url'', PStr ''http://a.example/''), (''ok'', PBool True), (''status_code'', PInt 200),
                   (''has_judol'', PBool True), (''exact_judol'', PBool True), (''length'', PInt 5)]])]"
    by (simp add: demo_report_def)
  show ?thesis
    by (rule run_checker.report [OF demo_parse _ p demo_collect w r]) simp
qed

text \<open>
  Claim C8. For every report \<open>run_checker\<close> returns, the output file holds the serialized
  report, and parsing that file again yields the same object, field for field, for
  success and failure results alike; text outside ASCII is written as it is, without
  escapes.
\<close>

theorem report_json_round_trip:
  "(run_checker w sitemap output concurrency timeout (Inr (rep, fs))
      \<longrightarrow> fs output = Some (json_dumps rep) \<and> json_loads (json_dumps rep) = Some rep)
   \<and> ((\<forall>c \<in> set s. 127 < (of_char c :: nat))
        \<longrightarrow> iterencode lvl (PStr s) = CHR 0x22 # s @ [CHR 0x22])"
proof (intro conjI impI)
  assume "run_checker w sitemap output concurrency timeout (Inr (rep, fs))"
  then show "fs output = Some (json_dumps rep)"
    by (cases rule: run_checker.cases) simp
next
  assume "run_checker w sitemap output concurrency timeout (Inr (rep, fs))"
  then have "distinct_keys rep"
  proof (cases rule: run_checker.cases)
    case (report urls order results)
    from report have col:
      "collect (map (future_result w (make_session w 3 (3 / 10) 10) timeout) order) = Inr results"
      by simp
    from collect_results [of w "make_session w 3 (3 / 10) 10" timeout order] col
    have "map Inr results = map (future_result w (make_session w 3 (3 / 10) 10) timeout) order"
      by simp
    then have "distinct_keys_list results" by (rule results_distinct_keys)
    with report show ?thesis by simp
  qed
  then show "json_loads (json_dumps rep) = Some rep" by (rule json_loads_dumps)
next
  assume "\<forall>c \<in> set s. 127 < (of_char c :: nat)"
  then show "iterencode lvl (PStr s) = CHR 0x22 # s @ [CHR 0x22]"
    by (simp add: encode_basestring_plain)
qed

theorem report_json_round_trip_witness:
  "json_loads (json_dumps demo_report) = Some demo_report
   \<and> iterencode 0 (PStr [CHR 0xE9, CHR 0xFC]) = [CHR 0x22, CHR 0xE9, CHR 0xFC, CHR 0x22]"
proof -
  have a: "\<forall>c \<in> set [CHR 0xE9, CHR 0xFC]. 127 < (of_char c :: nat)" by simp
  from demo_run a
    report_json_round_trip [of demo_world "''sitemap.xml''" "''judol_report.json''" 2 10 demo_report
      "(files demo_world)(''judol_report.json'' \<mapsto> json_dumps demo_report)" "[CHR 0xE9, CHR 0xFC]" 0]
  have "json_loads (json_dumps demo_report) = Some demo_report"
    and "iterencode 0 (PStr [CHR 0xE9, CHR 0xFC]) = CHR 0x22 # [CHR 0xE9, CHR 0xFC] @ [CHR 0x22]"
    by blast+
  then show ?thesis by simp
qed

end
